theory Spec2Isabelle
  imports Complex_Main "HOL-Library.Word"
begin

unbundle bit_operations_syntax

section \<open>Machine types, failures, memory\<close>

text \<open>
  The program is \<^verbatim>\<open>vector_bool.cpp\<close>, built for a 64-bit target: \<^verbatim>\<open>std::size_t\<close> is a
  64-bit unsigned integer whose arithmetic wraps, \<^verbatim>\<open>uint8_t\<close> is a byte. Memory is a store
  from addresses to bytes; an address is a natural number.
\<close>

type_synonym size_t = "64 word"
type_synonym uint8_t = "8 word"
type_synonym addr = nat
type_synonym memory = "addr \<Rightarrow> uint8_t"

text \<open>
  The only exception the source itself throws is \<^verbatim>\<open>std::bad_alloc\<close>, at two places of
  \<^verbatim>\<open>PreFaultAllocator::allocate\<close>: after the size guard (line 39) and after
  \<^verbatim>\<open>std::malloc\<close> returned a null pointer (line 51). The argument of \<open>bad_alloc\<close> records
  which \<^verbatim>\<open>throw\<close> statement ran; \<open>OperatorNew\<close> is the \<^verbatim>\<open>std::bad_alloc\<close> of the standard
  library's own allocation. The standard library calls of \<^verbatim>\<open>main\<close> can throw as well:
  \<^verbatim>\<open>std::length_error\<close> or \<^verbatim>\<open>std::bad_alloc\<close> from the constructor of \<^verbatim>\<open>std::vector\<close>, and
  an exception derived from \<^verbatim>\<open>std::runtime_error\<close> from \<^verbatim>\<open>std::random_device\<close>. The access
  loops index a raw pointer and a \<^verbatim>\<open>std::vector\<close> with the unchecked \<^verbatim>\<open>operator[]\<close>; an
  index outside the object is undefined behaviour in C++, which the model keeps apart as
  the outcome \<open>undefined_behaviour\<close> instead of inventing a value.
\<close>

datatype throw_site = AllocationOverflow | OutOfMemory | OperatorNew

datatype error = bad_alloc throw_site | length_error | runtime_error | undefined_behaviour

text \<open>\<^verbatim>\<open>std::numeric_limits<std::size_t>::max()\<close>\<close>

definition SIZE_MAX :: size_t where
  "SIZE_MAX = - 1"

section \<open>PreFaultAllocator\<close>

text \<open>\<^verbatim>\<open>std::memset(p, c, k)\<close>: writes \<open>c\<close> to the \<open>k\<close> bytes from \<open>p\<close> on, lowest address first.\<close>

fun memset :: "memory \<Rightarrow> addr \<Rightarrow> uint8_t \<Rightarrow> nat \<Rightarrow> memory" where
  "memset m p c 0 = m"
| "memset m p c (Suc k) = memset (m(p := c)) (Suc p) c k"

text \<open>\<^verbatim>\<open>const size_t bytes_to_allocate = n * sizeof(T);\<close> a product of two \<^verbatim>\<open>size_t\<close>, which wraps.\<close>

definition bytes_to_allocate :: "size_t \<Rightarrow> size_t \<Rightarrow> size_t" where
  "bytes_to_allocate sizeof_T n = n * sizeof_T"

text \<open>
  \<^verbatim>\<open>PreFaultAllocator<T>::allocate(n)\<close>, lines 37 to 52. The template parameter enters only
  through \<^verbatim>\<open>sizeof(T)\<close>, the first argument. \<^verbatim>\<open>std::malloc\<close> belongs to the C library: it
  is the parameter \<open>malloc\<close>, from the requested size to the address of the region, \<open>None\<close>
  for the null pointer. The memory before the call is \<open>m\<close>; the result is the pointer and
  the memory after \<^verbatim>\<open>memset\<close>.
\<close>

definition allocate ::
  "size_t \<Rightarrow> (size_t \<Rightarrow> addr option) \<Rightarrow> memory \<Rightarrow> size_t \<Rightarrow> error + addr \<times> memory" where
  "allocate sizeof_T malloc m n =
     (if n > SIZE_MAX div sizeof_T then Inl (bad_alloc AllocationOverflow)
      else case malloc (bytes_to_allocate sizeof_T n) of
             Some p \<Rightarrow> Inr (p, memset m p 0 (unat (bytes_to_allocate sizeof_T n)))
           | None \<Rightarrow> Inl (bad_alloc OutOfMemory))"

section \<open>The counted loop\<close>

text \<open>
  All three loops of \<^verbatim>\<open>main\<close> have the header
  \<^verbatim>\<open>for (size_t i = 0; i < ACCESS_COUNT; ++i)\<close>. \<open>for_loop i n body s\<close> runs \<open>body\<close> for the
  counter values from \<open>i\<close> up to \<open>n\<close>, threading the state \<open>s\<close>; the counter is a
  \<^verbatim>\<open>size_t\<close>. A failing body ends the loop with its failure.
\<close>

function for_loop ::
  "size_t \<Rightarrow> size_t \<Rightarrow> (size_t \<Rightarrow> 's \<Rightarrow> error + 's) \<Rightarrow> 's \<Rightarrow> error + 's" where
  "for_loop i n body s =
     (if i < n then
        (case body i s of
           Inl e \<Rightarrow> Inl e
         | Inr s' \<Rightarrow> for_loop (i + 1) n body s')
      else Inr s)"
  by pat_completeness auto
termination
proof (relation "measure (\<lambda>(i, n, body, s). unat n - unat i)")
  show "wf (measure (\<lambda>(i :: size_t, n :: size_t, body :: size_t \<Rightarrow> 's \<Rightarrow> error + 's, s :: 's). unat n - unat i))"
    by simp
next
  fix i n :: size_t and body :: "size_t \<Rightarrow> 's \<Rightarrow> error + 's" and s x2 :: 's
  assume "i < n"
  then have "unat n - unat (i + 1) < unat n - unat i"
    by unat_arith
  then show "((i + 1, n, body, x2), i, n, body, s) \<in> measure (\<lambda>(i, n, body, s). unat n - unat i)"
    by simp
qed

declare for_loop.simps [simp del]

text \<open>
  The same loop as a big-step relation: \<open>loop_run n body i s t\<close> holds when the loop, entered
  with counter \<open>i\<close> and state \<open>s\<close>, runs every remaining iteration without failure and
  leaves the state \<open>t\<close>.
\<close>

inductive loop_run ::
  "size_t \<Rightarrow> (size_t \<Rightarrow> 's \<Rightarrow> error + 's) \<Rightarrow> size_t \<Rightarrow> 's \<Rightarrow> 's \<Rightarrow> bool"
  for n :: size_t and body :: "size_t \<Rightarrow> 's \<Rightarrow> error + 's" where
  loop_exit: "\<not> i < n \<Longrightarrow> loop_run n body i s s"
| loop_iter: "i < n \<Longrightarrow> body i s = Inr s' \<Longrightarrow> loop_run n body (i + 1) s' t \<Longrightarrow> loop_run n body i s t"

text \<open>
  \<^verbatim>\<open>indices[i]\<close> on a \<^verbatim>\<open>std::vector\<close>: the element when \<open>i\<close> is inside the vector, undefined
  behaviour otherwise.
\<close>

definition subscript :: "'x list \<Rightarrow> size_t \<Rightarrow> error + 'x" where
  "subscript xs i = (if unat i < length xs then Inr (xs ! unat i) else Inl undefined_behaviour)"

text \<open>Running an operation over the elements of a list in order, stopping at the first failure.\<close>

fun run_list :: "('x \<Rightarrow> 's \<Rightarrow> error + 's) \<Rightarrow> 'x list \<Rightarrow> 's \<Rightarrow> error + 's" where
  "run_list f [] s = Inr s"
| "run_list f (x # xs) s = (case f x s of Inl e \<Rightarrow> Inl e | Inr s' \<Rightarrow> run_list f xs s')"

section \<open>Workload generation\<close>

text \<open>
  \<^verbatim>\<open>std::mt19937\<close> and \<^verbatim>\<open>std::uniform_int_distribution<size_t>\<close> belong to the standard
  library. They are parameters of the model: \<open>mt19937\<close> builds the engine state from the
  32-bit seed, and \<open>distrib a b g\<close> is one call \<^verbatim>\<open>distrib(gen)\<close> of a distribution
  constructed with the bounds \<open>a\<close> and \<open>b\<close>, returning the value drawn and the engine
  state after it.
\<close>

record 'g random_lib =
  mt19937 :: "32 word \<Rightarrow> 'g"
  distrib :: "size_t \<Rightarrow> size_t \<Rightarrow> 'g \<Rightarrow> size_t \<times> 'g"

text \<open>
  What the C++ standard promises of \<^verbatim>\<open>uniform_int_distribution(a, b)\<close>: for \<open>a \<le> b\<close>, every
  value drawn lies in the closed interval from \<open>a\<close> to \<open>b\<close>.
\<close>

definition distrib_in_range :: "'g random_lib \<Rightarrow> bool" where
  "distrib_in_range R =
     (\<forall>a b g. a \<le> b \<longrightarrow> a \<le> fst (distrib R a b g) \<and> fst (distrib R a b g) \<le> b)"

record 'g gen_state =
  indices :: "size_t list"
  gen :: 'g

text \<open>Line 78, \<^verbatim>\<open>indices[i] = distrib(gen);\<close> with \<^verbatim>\<open>distrib(0, ITEM_COUNT - 1)\<close> of line 76.\<close>

definition gen_body :: "'g random_lib \<Rightarrow> size_t \<Rightarrow> size_t \<Rightarrow> 'g gen_state \<Rightarrow> error + 'g gen_state" where
  "gen_body R item_count i s =
     (let (v, g') = distrib R 0 (item_count - 1) (gen s) in
      if unat i < length (indices s)
      then Inr \<lparr>indices = (indices s)[unat i := v], gen = g'\<rparr>
      else Inl undefined_behaviour)"

text \<open>
  The state in which the loop of line 77 starts once line 74 has constructed the vector
  and line 75 has read the seed: \<^verbatim>\<open>std::vector<size_t> indices(ACCESS_COUNT)\<close> holds
  \<^verbatim>\<open>ACCESS_COUNT\<close> zeros and the engine is seeded with the value read.
\<close>

definition gen_init :: "'g random_lib \<Rightarrow> size_t \<Rightarrow> 32 word \<Rightarrow> 'g gen_state" where
  "gen_init R access_count seed =
     \<lparr>indices = replicate (unat access_count) 0, gen = mt19937 R seed\<rparr>"

text \<open>
  Lines 76 to 79 of \<^verbatim>\<open>main\<close>, from that state: the loop, and the workload it leaves. The
  two steps before it, which can throw, are in \<open>workload_generation\<close> below.
\<close>

definition generate :: "'g random_lib \<Rightarrow> size_t \<Rightarrow> size_t \<Rightarrow> 32 word \<Rightarrow> error + size_t list" where
  "generate R item_count access_count seed =
     (case for_loop 0 access_count (gen_body R item_count) (gen_init R access_count seed) of
        Inl e \<Rightarrow> Inl e
      | Inr s \<Rightarrow> Inr (indices s))"

text \<open>
  What the run-time environment decides in lines 74 and 75. \<open>vector_throws n\<close> is the
  exception that \<^verbatim>\<open>std::vector<size_t> indices(n)\<close> throws (\<^verbatim>\<open>std::length_error\<close> for a size
  beyond \<^verbatim>\<open>max_size()\<close>, \<^verbatim>\<open>std::bad_alloc\<close> when the storage is refused), \<open>None\<close> when the
  vector is constructed. \<open>random_device\<close> is the outcome of \<^verbatim>\<open>std::random_device{}()\<close>: the
  32-bit value read from the entropy source, or the exception thrown when it cannot be
  read. The seed is not an input of the program: it is read here.
\<close>

record runtime =
  vector_throws :: "size_t \<Rightarrow> error option"
  random_device :: "error + 32 word"

text \<open>
  Lines 74 to 79 of \<^verbatim>\<open>main\<close>, with \<^verbatim>\<open>ITEM_COUNT\<close> and \<^verbatim>\<open>ACCESS_COUNT\<close> as arguments: the
  vector is constructed, then the seed is read and the engine seeded, then the loop runs.
  The code compares the item count with nothing.
\<close>

definition workload_generation ::
  "runtime \<Rightarrow> 'g random_lib \<Rightarrow> size_t \<Rightarrow> size_t \<Rightarrow> error + size_t list" where
  "workload_generation E R item_count access_count =
     (case vector_throws E access_count of
        Some e \<Rightarrow> Inl e
      | None \<Rightarrow>
          (case random_device E of
             Inl e \<Rightarrow> Inl e
           | Inr seed \<Rightarrow> generate R item_count access_count seed))"

section \<open>Timer\<close>



record Timer =
  timer_name :: string
  start_time :: int

text \<open>
  Line 13, the constructor; \<open>now\<close> is the reading of the clock. The fields are
  \<^verbatim>\<open>name_\<close> and \<^verbatim>\<open>start_time_\<close> of the source.
\<close>

definition Timer_ctor :: "string \<Rightarrow> int \<Rightarrow> Timer" where
  "Timer_ctor name now = \<lparr>timer_name = name, start_time = now\<rparr>"

text \<open>Lines 17 and 18: the nanoseconds between the two readings, and the milliseconds.\<close>

definition elapsed_ms :: "Timer \<Rightarrow> int \<Rightarrow> real" where
  "elapsed_ms t end_time =
     (let duration = end_time - start_time t
      in real_of_int duration / 1000000)"




section \<open>Case 2: raw memory\<close>

text \<open>
  The state of an access loop is the store it works on and the \<^verbatim>\<open>volatile bool sink\<close>.
  Lines 95 and 96 for one index: \<^verbatim>\<open>raw_mem[idx] = 1 - raw_mem[idx]\<close> computes in \<^verbatim>\<open>int\<close> and
  converts back to \<^verbatim>\<open>uint8_t\<close>, which is subtraction modulo 256; then
  \<^verbatim>\<open>sink = (raw_mem[idx] != 0)\<close>. The buffer has \<open>item_count\<close> bytes.
\<close>

definition raw_access :: "addr \<Rightarrow> size_t \<Rightarrow> size_t \<Rightarrow> memory \<times> bool \<Rightarrow> error + memory \<times> bool" where
  "raw_access raw_mem item_count idx s =
     (if idx < item_count then
        let a = raw_mem + unat idx;
            m' = (fst s)(a := 1 - fst s a)
        in Inr (m', m' a \<noteq> 0)
      else Inl undefined_behaviour)"

definition raw_body ::
  "addr \<Rightarrow> size_t \<Rightarrow> size_t list \<Rightarrow> size_t \<Rightarrow> memory \<times> bool \<Rightarrow> error + memory \<times> bool" where
  "raw_body raw_mem item_count idxs i s =
     (case subscript idxs i of
        Inl e \<Rightarrow> Inl e
      | Inr idx \<Rightarrow> raw_access raw_mem item_count idx s)"

text \<open>The boolean a byte of the buffer stands for, read as line 96 reads it.\<close>

definition raw_flag :: "memory \<Rightarrow> addr \<Rightarrow> nat \<Rightarrow> bool" where
  "raw_flag m raw_mem k = (m (raw_mem + k) \<noteq> 0)"

text \<open>
  Lines 87 to 98: \<^verbatim>\<open>PreFaultAllocator<uint8_t>\<close>, so \<^verbatim>\<open>sizeof(T)\<close> is 1, then the timed loop.
  The result is the buffer's address, the memory and the sink when the loop ends.
\<close>

definition raw_case ::
  "(size_t \<Rightarrow> addr option) \<Rightarrow> memory \<Rightarrow> size_t \<Rightarrow> size_t \<Rightarrow> size_t list \<Rightarrow> bool
     \<Rightarrow> error + addr \<times> memory \<times> bool" where
  "raw_case malloc m item_count access_count idxs sink =
     (case allocate 1 malloc m item_count of
        Inl e \<Rightarrow> Inl e
      | Inr (raw_mem, m0) \<Rightarrow>
          (case for_loop 0 access_count (raw_body raw_mem item_count idxs) (m0, sink) of
             Inl e \<Rightarrow> Inl e
           | Inr (m', sink') \<Rightarrow> Inr (raw_mem, m', sink')))"

section \<open>Case 1: the packed boolean store\<close>

text \<open>
  Modelled from the spec: \<^verbatim>\<open>std::vector<bool>\<close>, whose code is the standard library's and
  not part of the source file. The spec's packed boolean store is a sequence of flags
  kept in blocks of a fixed width; flag \<open>i\<close> lives in block \<open>i / blockWidth\<close> at offset
  \<open>i % blockWidth\<close>; a read extracts the bit with a mask, a write is a read-modify-write
  of the one block. A block is a word of type \<open>'a word\<close>, so the block width is
  \<open>LENGTH('a)\<close>, any width from 1 on; the program's own store has 64-bit blocks.
\<close>

record 'b vector_bool =
  vb_size :: nat
  blocks :: "'b list"

text \<open>Modelled from the spec: the fixed block width, the number of flags per block.\<close>

definition blockWidth :: "'a::len word vector_bool \<Rightarrow> nat" where
  "blockWidth v = LENGTH('a)"

text \<open>Modelled from the spec: \<^verbatim>\<open>blockIndex = i / blockWidth\<close>.\<close>

definition blockIndex :: "'a::len word vector_bool \<Rightarrow> nat \<Rightarrow> nat" where
  "blockIndex v i = i div blockWidth v"

text \<open>Modelled from the spec: \<^verbatim>\<open>bitOffset = i % blockWidth\<close>.\<close>

definition bitOffset :: "'a::len word vector_bool \<Rightarrow> nat \<Rightarrow> nat" where
  "bitOffset v i = i mod blockWidth v"

text \<open>
  Modelled from the spec: \<^verbatim>\<open>getFlag(i) -> bool\<close>, the mask and shift decode: the block of
  flag \<open>i\<close> masked with a one shifted to the offset of \<open>i\<close>.
\<close>

definition getFlag :: "'a::len word vector_bool \<Rightarrow> nat \<Rightarrow> bool" where
  "getFlag v i = (blocks v ! blockIndex v i AND push_bit (bitOffset v i) 1 \<noteq> 0)"

text \<open>
  Modelled from the spec: \<^verbatim>\<open>setFlag(i, bool)\<close>, the read-modify-write encode: the block of
  flag \<open>i\<close> is read, the one bit is set or cleared through the mask, and the block is
  written back.
\<close>

definition setFlag :: "'a::len word vector_bool \<Rightarrow> nat \<Rightarrow> bool \<Rightarrow> 'a word vector_bool" where
  "setFlag v i x =
     (let k = blockIndex v i;
          mask = push_bit (bitOffset v i) 1;
          b = blocks v ! k
      in v\<lparr>blocks := (blocks v)[k := (if x then b OR mask else b AND NOT mask)]\<rparr>)"

text \<open>Modelled from the spec: the number of blocks that hold \<open>n\<close> flags.\<close>

definition nblocks :: "'a::len word vector_bool \<Rightarrow> nat \<Rightarrow> nat" where
  "nblocks v n = (n + blockWidth v - 1) div blockWidth v"

text \<open>Modelled from the spec: a store has exactly the blocks its flags need.\<close>

definition wf_vector_bool :: "'a::len word vector_bool \<Rightarrow> bool" where
  "wf_vector_bool v = (length (blocks v) = nblocks v (vb_size v))"

text \<open>Modelled from the spec: the bytes of one block, the element size the allocator sees.\<close>

definition block_bytes :: "'a::len word vector_bool \<Rightarrow> nat" where
  "block_bytes v = (blockWidth v + 7) div 8"

text \<open>Modelled from the spec: the store of \<open>n\<close> flags, every flag false, every block zero.\<close>

definition vector_bool_init :: "size_t \<Rightarrow> 'a::len word vector_bool" where
  "vector_bool_init n =
     (let v0 = \<lparr>vb_size = unat n, blocks = []\<rparr>
      in v0\<lparr>blocks := replicate (nblocks v0 (unat n)) 0\<rparr>)"

text \<open>
  Modelled from the spec: line 107, \<^verbatim>\<open>bool_vec(ITEM_COUNT, PreFaultAllocator<bool>())\<close>. The
  block array comes from the allocator of the source, instantiated at the block type, and
  a failure of that call is the failure of the constructor; every flag starts false. The
  contents of the blocks are kept in the list \<open>blocks\<close>, not in the byte store.
\<close>

definition vector_bool_ctor ::
  "(size_t \<Rightarrow> addr option) \<Rightarrow> memory \<Rightarrow> size_t \<Rightarrow> error + 'a::len word vector_bool" where
  "vector_bool_ctor malloc m n =
     (let v = vector_bool_init n in
      case allocate (of_nat (block_bytes v)) malloc m (of_nat (length (blocks v))) of
        Inl e \<Rightarrow> Inl e
      | Inr (p, m') \<Rightarrow> Inr v)"

text \<open>
  Lines 112 and 113 for one index: \<^verbatim>\<open>bool_vec[idx] = !bool_vec[idx]\<close>, then
  \<^verbatim>\<open>sink = bool_vec[idx]\<close>. \<^verbatim>\<open>operator[]\<close> is unchecked.
\<close>

definition packed_access ::
  "size_t \<Rightarrow> 'a::len word vector_bool \<times> bool \<Rightarrow> error + 'a word vector_bool \<times> bool" where
  "packed_access idx s =
     (if unat idx < vb_size (fst s) then
        let v' = setFlag (fst s) (unat idx) (\<not> getFlag (fst s) (unat idx))
        in Inr (v', getFlag v' (unat idx))
      else Inl undefined_behaviour)"

definition packed_body ::
  "size_t list \<Rightarrow> size_t \<Rightarrow> 'a::len word vector_bool \<times> bool \<Rightarrow> error + 'a word vector_bool \<times> bool" where
  "packed_body idxs i s =
     (case subscript idxs i of
        Inl e \<Rightarrow> Inl e
      | Inr idx \<Rightarrow> packed_access idx s)"

text \<open>Lines 104 to 115.\<close>

definition packed_case ::
  "(size_t \<Rightarrow> addr option) \<Rightarrow> memory \<Rightarrow> size_t \<Rightarrow> size_t \<Rightarrow> size_t list \<Rightarrow> bool
     \<Rightarrow> error + 'a::len word vector_bool \<times> bool" where
  "packed_case malloc m item_count access_count idxs sink =
     (case vector_bool_ctor malloc m item_count of
        Inl e \<Rightarrow> Inl e
      | Inr v \<Rightarrow> for_loop 0 access_count (packed_body idxs) (v, sink))"

section \<open>The program\<close>

definition ITEM_COUNT :: size_t where
  "ITEM_COUNT = 8096"

definition ACCESS_COUNT :: size_t where
  "ACCESS_COUNT = 20000000"

text \<open>
  \<^verbatim>\<open>main\<close>: one workload, then the raw case, then the packed case on 64-bit blocks, the
  sink starting false. What the program stores is modelled here; the timers and their
  lines are in the section on \<^verbatim>\<open>Timer\<close>.
\<close>

definition main_prog ::
  "runtime \<Rightarrow> 'g random_lib \<Rightarrow> (size_t \<Rightarrow> addr option) \<Rightarrow> memory
     \<Rightarrow> error + 64 word vector_bool \<times> bool" where
  "main_prog E R malloc m =
     (case workload_generation E R ITEM_COUNT ACCESS_COUNT of
        Inl e \<Rightarrow> Inl e
      | Inr idxs \<Rightarrow>
          (case raw_case malloc m ITEM_COUNT ACCESS_COUNT idxs False of
             Inl e \<Rightarrow> Inl e
           | Inr (raw_mem, m', sink') \<Rightarrow>
               packed_case malloc m' ITEM_COUNT ACCESS_COUNT idxs sink'))"

section \<open>A concrete library for running the model\<close>

text \<open>
  To evaluate the model on concrete inputs the library parameters need values. \<open>lcg_lib\<close>
  is a linear congruential engine on 64-bit words with a distribution that reduces the
  engine state into the requested interval (for the full 64-bit interval the width wraps
  to 0 and the state itself is the value drawn); \<open>fixed_malloc\<close> always returns the address
  64; \<open>stale\<close> is a memory whose every byte holds \<^verbatim>\<open>0xAA\<close>; \<open>granting seed\<close> is an
  environment that constructs every vector and reads \<open>seed\<close> from the entropy source;
  \<open>refusing\<close> is one that refuses the storage of every vector.
\<close>

definition lcg_lib :: "size_t random_lib" where
  "lcg_lib =
     \<lparr>mt19937 = ucast,
      distrib = (\<lambda>a b g. (a + g mod (b - a + 1), g * 6364136223846793005 + 1442695040888963407))\<rparr>"

definition fixed_malloc :: "size_t \<Rightarrow> addr option" where
  "fixed_malloc b = Some 64"

definition stale :: memory where
  "stale a = 170"

definition granting :: "32 word \<Rightarrow> runtime" where
  "granting seed = \<lparr>vector_throws = (\<lambda>n. None), random_device = Inr seed\<rparr>"

definition refusing :: runtime where
  "refusing = \<lparr>vector_throws = (\<lambda>n. Some (bad_alloc OperatorNew)), random_device = Inr 7\<rparr>"

section \<open>The allocator\<close>

lemma memset_outside: "a < p \<Longrightarrow> memset m p c k a = m a"
  by (induction k arbitrary: m p) auto

lemma memset_inside: "p \<le> a \<Longrightarrow> a < p + k \<Longrightarrow> memset m p c k a = c"
proof (induction k arbitrary: m p)
  case 0
  then show ?case by simp
next
  case (Suc k)
  show ?case
  proof (cases "a = p")
    case True
    then show ?thesis by (simp add: memset_outside)
  next
    case False
    with Suc.prems have "Suc p \<le> a" "a < Suc p + k" by simp_all
    then show ?thesis using Suc.IH by simp
  qed
qed

lemma memset_beyond: "p + k \<le> a \<Longrightarrow> memset m p c k a = m a"
  by (induction k arbitrary: m p) auto

lemma unat_SIZE_MAX: "unat SIZE_MAX = 18446744073709551615"
  by (simp add: SIZE_MAX_def unsigned_minus_1_eq_mask mask_eq_exp_minus_1)

text \<open>
  The guard of line 38 against the exact product: dividing the largest size by the element
  size and comparing is the same as comparing the unbounded product with the largest size.
\<close>

lemma guard_iff:
  assumes "1 \<le> sizeof_T"
  shows "(SIZE_MAX div sizeof_T < n) = (unat SIZE_MAX < unat n * unat sizeof_T)"
proof -
  have pos: "0 < unat sizeof_T"
    using assms by (simp add: word_le_nat_alt)
  have "(SIZE_MAX div sizeof_T < n) = (unat SIZE_MAX div unat sizeof_T < unat n)"
    by (simp add: word_less_nat_alt unat_div)
  also have "\<dots> = (unat SIZE_MAX < unat n * unat sizeof_T)"
    using pos by (simp add: div_less_iff_less_mult)
  finally show ?thesis .
qed

lemma no_truncation:
  assumes "\<not> SIZE_MAX div sizeof_T < n"
  shows "unat (bytes_to_allocate sizeof_T n) = unat n * unat sizeof_T"
proof (cases "sizeof_T = 0")
  case True
  then show ?thesis by (simp add: bytes_to_allocate_def)
next
  case False
  then have "1 \<le> sizeof_T"
    by (simp add: word_le_nat_alt unat_gt_0 Suc_leI)
  with assms have "\<not> unat SIZE_MAX < unat n * unat sizeof_T"
    by (simp add: guard_iff)
  then have "unat n * unat sizeof_T < 2 ^ LENGTH(64)"
    by (simp add: unat_SIZE_MAX)
  then show ?thesis
    unfolding bytes_to_allocate_def by (simp only: unat_mult_lem [THEN iffD1])
qed

lemma allocate_Inr:
  assumes "allocate sizeof_T malloc m n = Inr (p, m')"
  shows "m' = memset m p 0 (unat n * unat sizeof_T)"
proof -
  from assms have g: "\<not> SIZE_MAX div sizeof_T < n"
    by (auto simp: allocate_def split: if_splits)
  with assms have "m' = memset m p 0 (unat (bytes_to_allocate sizeof_T n))"
    by (auto simp: allocate_def split: option.splits)
  then show ?thesis
    using g by (simp add: no_truncation)
qed

text \<open>
  C1. When \<open>allocate\<close> returns a region (the size guard passed and \<^verbatim>\<open>malloc\<close> gave a
  pointer), every byte of the \<open>n * sizeof(T)\<close> bytes from the returned pointer on reads as
  zero in the memory that \<open>allocate\<close> leaves, whatever the memory held before.
\<close>

theorem allocate_zero_filled:
  assumes "allocate sizeof_T malloc m n = Inr (p, m')"
    and "k < unat n * unat sizeof_T"
  shows "m' (p + k) = 0"
proof -
  have "m' = memset m p 0 (unat n * unat sizeof_T)"
    using assms(1) by (rule allocate_Inr)
  then show ?thesis
    using assms(2) by (simp add: memset_inside)
qed

theorem allocate_zero_filled_witness:
  "allocate 8 fixed_malloc stale 2 = Inr (64, memset stale 64 0 16)
   \<and> (15 :: nat) < unat (2 :: size_t) * unat (8 :: size_t)
   \<and> stale (64 + 15) = 170
   \<and> memset stale 64 0 16 (64 + 15) = 0"
proof -
  have h: "allocate 8 fixed_malloc stale 2 = Inr (64, memset stale 64 0 16)"
    by (simp add: allocate_def bytes_to_allocate_def SIZE_MAX_def fixed_malloc_def)
  have k: "(15 :: nat) < unat (2 :: size_t) * unat (8 :: size_t)"
    by simp
  from allocate_zero_filled [OF h k] h k show ?thesis
    by (simp add: stale_def)
qed

text \<open>
  C2. For an element size of at least 1, the guard of line 38 fires exactly when the
  product of \<open>n\<close> and the element size, taken in the natural numbers, is larger than
  \<open>SIZE_MAX\<close>, and \<open>allocate\<close> throws at that guard in exactly that case. When it does
  not, the \<^verbatim>\<open>size_t\<close> product passed to \<^verbatim>\<open>malloc\<close> has the value of the exact product, and
  the outcome of \<open>allocate\<close> is decided by \<^verbatim>\<open>malloc\<close> on that request.
\<close>

theorem allocate_overflow_iff:
  assumes "1 \<le> sizeof_T"
  shows "(SIZE_MAX div sizeof_T < n) = (unat SIZE_MAX < unat n * unat sizeof_T)
    \<and> (allocate sizeof_T malloc m n = Inl (bad_alloc AllocationOverflow))
           = (unat SIZE_MAX < unat n * unat sizeof_T)
    \<and> (\<not> unat SIZE_MAX < unat n * unat sizeof_T \<longrightarrow>
           unat (bytes_to_allocate sizeof_T n) = unat n * unat sizeof_T
           \<and> allocate sizeof_T malloc m n =
               (case malloc (bytes_to_allocate sizeof_T n) of
                  Some p \<Rightarrow> Inr (p, memset m p 0 (unat n * unat sizeof_T))
                | None \<Rightarrow> Inl (bad_alloc OutOfMemory)))"
proof -
  have g: "(SIZE_MAX div sizeof_T < n) = (unat SIZE_MAX < unat n * unat sizeof_T)"
    using assms by (rule guard_iff)
  have a: "(allocate sizeof_T malloc m n = Inl (bad_alloc AllocationOverflow))
           = (unat SIZE_MAX < unat n * unat sizeof_T)"
    unfolding g [symmetric] by (simp add: allocate_def split: option.splits)
  have b: "\<not> unat SIZE_MAX < unat n * unat sizeof_T \<longrightarrow>
           unat (bytes_to_allocate sizeof_T n) = unat n * unat sizeof_T
           \<and> allocate sizeof_T malloc m n =
               (case malloc (bytes_to_allocate sizeof_T n) of
                  Some p \<Rightarrow> Inr (p, memset m p 0 (unat n * unat sizeof_T))
                | None \<Rightarrow> Inl (bad_alloc OutOfMemory))"
    unfolding g [symmetric] by (auto simp: allocate_def no_truncation split: option.splits)
  from g a b show ?thesis by blast
qed

theorem allocate_overflow_iff_witness:
  "(1 :: size_t) \<le> 8
   \<and> unat SIZE_MAX < unat (2305843009213693952 :: size_t) * unat (8 :: size_t)
   \<and> allocate 8 fixed_malloc stale 2305843009213693952 = Inl (bad_alloc AllocationOverflow)
   \<and> \<not> unat SIZE_MAX < unat (2305843009213693951 :: size_t) * unat (8 :: size_t)
   \<and> unat (bytes_to_allocate 8 2305843009213693951) = 18446744073709551608
   \<and> allocate 8 fixed_malloc stale 2305843009213693951 \<noteq> Inl (bad_alloc AllocationOverflow)"
proof -
  have h: "(1 :: size_t) \<le> 8" by simp
  have big: "unat SIZE_MAX < unat (2305843009213693952 :: size_t) * unat (8 :: size_t)"
    by (simp add: unat_SIZE_MAX)
  have fits: "\<not> unat SIZE_MAX < unat (2305843009213693951 :: size_t) * unat (8 :: size_t)"
    by (simp add: unat_SIZE_MAX)
  from allocate_overflow_iff [OF h, of 2305843009213693952 fixed_malloc stale]
    allocate_overflow_iff [OF h, of 2305843009213693951 fixed_malloc stale] h big fits
  show ?thesis by (simp add: fixed_malloc_def)
qed

section \<open>The counted loop: unfolding, runs, lists\<close>

lemma for_loop_exit: "\<not> i < n \<Longrightarrow> for_loop i n body s = Inr s"
  by (subst for_loop.simps) simp

lemma for_loop_iter:
  "i < n \<Longrightarrow> for_loop i n body s =
     (case body i s of Inl e \<Rightarrow> Inl e | Inr s' \<Rightarrow> for_loop (i + 1) n body s')"
  by (subst for_loop.simps) simp

lemma unat_incr: "i < n \<Longrightarrow> unat (i + 1) = Suc (unat i)" for i n :: size_t
  by unat_arith

lemma incr_le: "i < n \<Longrightarrow> i + 1 \<le> n" for i n :: size_t
  by (rule inc_le)

lemma loop_run_for_loop: "loop_run n body i s t \<Longrightarrow> for_loop i n body s = Inr t"
  by (induction rule: loop_run.induct) (simp_all add: for_loop_exit for_loop_iter)

lemma for_loop_loop_run: "for_loop i n body s = Inr t \<Longrightarrow> loop_run n body i s t"
proof (induction i n body s rule: for_loop.induct)
  case (1 i n body s)
  show ?case
  proof (cases "i < n")
    case False
    with "1.prems" show ?thesis
      by (simp add: for_loop_exit loop_exit)
  next
    case True
    with "1.prems" obtain s' where b: "body i s = Inr s'" and r: "for_loop (i + 1) n body s' = Inr t"
      by (auto simp: for_loop_iter split: sum.splits)
    from "1.IH" [OF True b r] True b show ?thesis
      by (rule loop_iter [rotated 2])
  qed
qed

lemma loop_run_deterministic:
  "loop_run n body i s t \<Longrightarrow> loop_run n body i s t' \<Longrightarrow> t = t'"
proof (induction arbitrary: t' rule: loop_run.induct)
  case (loop_exit i s)
  from loop_exit.prems loop_exit.hyps show ?case
    by (cases rule: loop_run.cases) simp_all
next
  case (loop_iter i s s' t)
  from loop_iter.prems show ?case
  proof (cases rule: loop_run.cases)
    case loop_exit
    with loop_iter.hyps show ?thesis by simp
  next
    case (loop_iter s'')
    with \<open>body i s = Inr s'\<close> have "s'' = s'" by simp
    with loop_iter show ?thesis
      using \<open>\<And>t'. loop_run n body (i + 1) s' t' \<Longrightarrow> t = t'\<close> by simp
  qed
qed

lemma for_loop_subscript:
  assumes "length xs = unat n"
  shows "i \<le> n \<Longrightarrow>
    for_loop i n (\<lambda>i s. case subscript xs i of Inl e \<Rightarrow> Inl e | Inr x \<Rightarrow> f x s) s
      = run_list f (drop (unat i) xs) s"
proof (induction "unat n - unat i" arbitrary: i s)
  case 0
  then have "\<not> i < n" by (simp add: word_less_nat_alt)
  moreover from 0 assms have "drop (unat i) xs = []" by simp
  ultimately show ?case by (simp add: for_loop_exit)
next
  case (Suc d)
  then have lt: "i < n" by (simp add: word_less_nat_alt)
  then have u: "unat (i + 1) = Suc (unat i)" by (rule unat_incr)
  from lt assms have inside: "unat i < length xs" by (simp add: word_less_nat_alt)
  have d: "drop (unat i) xs = xs ! unat i # drop (Suc (unat i)) xs"
    using inside by (simp add: Cons_nth_drop_Suc)
  have "d = unat n - unat (i + 1)" using Suc.hyps(2) u by simp
  moreover have "i + 1 \<le> n" using lt by (rule inc_le)
  ultimately have IH: "\<And>s. for_loop (i + 1) n (\<lambda>i s. case subscript xs i of Inl e \<Rightarrow> Inl e | Inr x \<Rightarrow> f x s) s
      = run_list f (drop (unat (i + 1)) xs) s"
    using Suc.hyps(1) by blast
  have sub: "subscript xs i = Inr (xs ! unat i)"
    using inside by (simp add: subscript_def)
  show ?case
    by (simp add: for_loop_iter [OF lt] sub d IH u split: sum.splits)
qed

lemma for_loop_split:
  "i \<le> k \<Longrightarrow> k \<le> n \<Longrightarrow>
     for_loop i n body s =
       (case for_loop i k body s of Inl e \<Rightarrow> Inl e | Inr s' \<Rightarrow> for_loop k n body s')"
proof (induction "unat k - unat i" arbitrary: i s)
  case 0
  then have "i = k" by (simp add: word_le_nat_alt word_unat_eq_iff)
  then show ?case by (simp add: for_loop_exit)
next
  case (Suc d)
  then have lt: "i < k" by (simp add: word_less_nat_alt)
  with Suc.prems have ltn: "i < n" by simp
  have u: "unat (i + 1) = Suc (unat i)" using lt by (rule unat_incr)
  have "d = unat k - unat (i + 1)" using Suc.hyps(2) u by simp
  moreover have "i + 1 \<le> k" using lt by (rule inc_le)
  ultimately have IH: "\<And>s. for_loop (i + 1) n body s =
       (case for_loop (i + 1) k body s of Inl e \<Rightarrow> Inl e | Inr s' \<Rightarrow> for_loop k n body s')"
    using Suc.hyps(1) Suc.prems(2) by blast
  show ?case
    by (simp add: for_loop_iter [OF lt] for_loop_iter [OF ltn] IH split: sum.splits)
qed

lemma run_list_append:
  "run_list f (xs @ ys) s = (case run_list f xs s of Inl e \<Rightarrow> Inl e | Inr s' \<Rightarrow> run_list f ys s')"
  by (induction xs arbitrary: s) (simp_all split: sum.splits)

section \<open>Workload generation\<close>

lemma gen_body_Inr:
  "unat i < length (indices s) \<Longrightarrow>
     gen_body R item_count i s =
       Inr \<lparr>indices = (indices s)[unat i := fst (distrib R 0 (item_count - 1) (gen s))],
            gen = snd (distrib R 0 (item_count - 1) (gen s))\<rparr>"
  by (simp add: gen_body_def split: prod.splits)

lemma gen_loop:
  assumes "length (indices s) = unat n" and "i \<le> n"
  shows "\<exists>t. for_loop i n (gen_body R item_count) s = Inr t
           \<and> length (indices t) = unat n
           \<and> (\<forall>j < unat i. indices t ! j = indices s ! j)
           \<and> (distrib_in_range R \<longrightarrow> 1 \<le> item_count \<longrightarrow>
                (\<forall>j. unat i \<le> j \<and> j < unat n \<longrightarrow> indices t ! j < item_count))"
  using assms
proof (induction "unat n - unat i" arbitrary: i s)
  case 0
  then have "\<not> i < n" by (simp add: word_less_nat_alt)
  moreover from 0 have "unat i = unat n" by (simp add: word_le_nat_alt)
  ultimately show ?case using 0 by (auto simp: for_loop_exit)
next
  case (Suc d)
  then have lt: "i < n" by (simp add: word_less_nat_alt)
  then have u: "unat (i + 1) = Suc (unat i)" by (rule unat_incr)
  from lt Suc.prems have inside: "unat i < length (indices s)" by (simp add: word_less_nat_alt)
  define v where "v = fst (distrib R 0 (item_count - 1) (gen s))"
  define s' where "s' = \<lparr>indices = (indices s)[unat i := v], gen = snd (distrib R 0 (item_count - 1) (gen s))\<rparr>"
  have b: "gen_body R item_count i s = Inr s'"
    using inside by (simp add: gen_body_Inr s'_def v_def)
  have len: "length (indices s') = unat n"
    using Suc.prems by (simp add: s'_def)
  have "d = unat n - unat (i + 1)" using Suc.hyps(2) u by simp
  moreover have "i + 1 \<le> n" using lt by (rule inc_le)
  ultimately obtain t where t: "for_loop (i + 1) n (gen_body R item_count) s' = Inr t"
    "length (indices t) = unat n"
    "\<forall>j < unat (i + 1). indices t ! j = indices s' ! j"
    "distrib_in_range R \<longrightarrow> 1 \<le> item_count \<longrightarrow>
       (\<forall>j. unat (i + 1) \<le> j \<and> j < unat n \<longrightarrow> indices t ! j < item_count)"
    using Suc.hyps(1) [of "i + 1" s'] len by blast
  have run: "for_loop i n (gen_body R item_count) s = Inr t"
    by (simp add: for_loop_iter [OF lt] b t(1))
  have below: "\<forall>j < unat i. indices t ! j = indices s ! j"
    using t(3) u by (simp add: s'_def)
  have here: "indices t ! unat i = v"
    using t(3) u inside by (simp add: s'_def)
  have range: "\<forall>j. unat i \<le> j \<and> j < unat n \<longrightarrow> indices t ! j < item_count"
    if R: "distrib_in_range R" and pos: "1 \<le> item_count"
  proof (intro allI impI)
    fix j assume j: "unat i \<le> j \<and> j < unat n"
    show "indices t ! j < item_count"
    proof (cases "j = unat i")
      case True
      have "v \<le> item_count - 1"
        using R unfolding distrib_in_range_def v_def by (simp add: word_le_nat_alt)
      moreover have "item_count - 1 < item_count"
        using pos by unat_arith
      ultimately show ?thesis using here True by simp
    next
      case False
      with j have "unat (i + 1) \<le> j \<and> j < unat n" using u by simp
      with t(4) R pos show ?thesis by blast
    qed
  qed
  from run t(2) below range show ?case by blast
qed

lemma generate_Inr:
  "\<exists>idxs. generate R item_count access_count seed = Inr idxs
      \<and> length idxs = unat access_count
      \<and> (distrib_in_range R \<longrightarrow> 1 \<le> item_count \<longrightarrow> (\<forall>j < length idxs. idxs ! j < item_count))"
proof -
  have "length (indices (gen_init R access_count seed)) = unat access_count"
    by (simp add: gen_init_def)
  from gen_loop [OF this, of 0 R item_count]
  obtain t where t: "for_loop 0 access_count (gen_body R item_count) (gen_init R access_count seed) = Inr t"
    "length (indices t) = unat access_count"
    "distrib_in_range R \<longrightarrow> 1 \<le> item_count \<longrightarrow>
       (\<forall>j. unat (0 :: size_t) \<le> j \<and> j < unat access_count \<longrightarrow> indices t ! j < item_count)"
    by auto
  then show ?thesis
    by (simp add: generate_def)
qed



lemma sub_wrap: "a \<le> b \<Longrightarrow> b - a + 1 = 0 \<Longrightarrow> a = 0 \<and> b = - 1" for a b :: size_t
  by (metis (no_types, lifting) add_minus_cancel
    add_neg_numeral_special(7,8) add_right_cancel diff_add_cancel
    word_order.extremum_uniqueI word_sub_le_iff)

lemma add_in_range: "a \<le> b \<Longrightarrow> x \<le> b - a \<Longrightarrow> a \<le> a + x \<and> a + x \<le> b" for a b x :: size_t
  by (metis add.commute le_plus' olen_add_eqv plus_minus_no_overflow_ab)

lemma lcg_in_range: "distrib_in_range lcg_lib"
  unfolding distrib_in_range_def
proof (intro allI impI)
  fix a b g :: size_t
  assume ab: "a \<le> b"
  show "a \<le> fst (distrib lcg_lib a b g) \<and> fst (distrib lcg_lib a b g) \<le> b"
  proof (cases "b - a + 1 = 0")
    case True
    with ab have "a = 0 \<and> b = - 1" by (rule sub_wrap)
    then show ?thesis by (simp add: lcg_lib_def)
  next
    case False
    then have "g mod (b - a + 1) < b - a + 1"
      by (simp add: word_mod_less_divisor word_neq_0_conv)
    then have "g mod (b - a + 1) \<le> b - a"
      by (simp add: Word.less_inc_imp_less_eq)
    with ab have "a \<le> a + g mod (b - a + 1) \<and> a + g mod (b - a + 1) \<le> b"
      by (rule add_in_range)
    then show ?thesis by (simp add: lcg_lib_def)
  qed
qed


text \<open>
  C3. With a distribution that keeps the standard's promise and an item count of at least
  1, generation returns a workload of exactly \<open>access_count\<close> entries, each at least 0
  and below the item count, for every access count and seed.
\<close>

theorem generate_in_range:
  assumes "distrib_in_range R" and "1 \<le> item_count"
  shows "\<exists>idxs. generate R item_count access_count seed = Inr idxs
           \<and> length idxs = unat access_count
           \<and> (\<forall>j < length idxs. 0 \<le> idxs ! j \<and> idxs ! j < item_count)"
  using generate_Inr [of R item_count access_count seed] assms by auto

theorem generate_in_range_witness:
  "distrib_in_range lcg_lib \<and> (1 :: size_t) \<le> 8
   \<and> generate lcg_lib 8 4 7 = Inr [7, 2, 1, 4]
   \<and> length [7, 2, 1, 4 :: size_t] = unat (4 :: size_t)
   \<and> list_all (\<lambda>x. 0 \<le> x \<and> x < 8) [7, 2, 1, 4 :: size_t]"
proof -
  have h: "(1 :: size_t) \<le> 8" by simp
  have e: "generate lcg_lib 8 4 7 = Inr [7, 2, 1, 4]" by code_simp
  from generate_in_range [OF lcg_in_range h, of 4 7] e
  have "length [7, 2, 1, 4 :: size_t] = unat (4 :: size_t)
    \<and> list_all (\<lambda>x. 0 \<le> x \<and> x < 8) [7, 2, 1, 4 :: size_t]"
    by (simp add: list_all_length)
  with lcg_in_range h e show ?thesis by (intro conjI) simp_all
qed

lemma workload_generation_cases:
  "workload_generation E R item_count access_count =
     (case vector_throws E access_count of
        Some e \<Rightarrow> Inl e
      | None \<Rightarrow>
          (case random_device E of
             Inl e \<Rightarrow> Inl e
           | Inr seed \<Rightarrow> generate R item_count access_count seed))"
  by (simp add: workload_generation_def)

lemma granting_generation:
  "workload_generation (granting seed) R item_count access_count
     = generate R item_count access_count seed"
  by (simp add: workload_generation_def granting_def)

lemma refusing_generation:
  "workload_generation refusing R item_count access_count = Inl (bad_alloc OperatorNew)"
  by (simp add: workload_generation_def refusing_def)

text \<open>
  C7, as the code has it. The code has no check of the item count and no failure named
  InvalidDomain. With an item count of 0 the bound \<^verbatim>\<open>ITEM_COUNT - 1\<close> wraps to \<open>SIZE_MAX\<close>
  and generation returns a workload; with an item count of 8 generation fails when the
  storage of the vector of line 74 is refused.
\<close>

theorem generation_domain_counterexample:
  "workload_generation (granting 7) lcg_lib 0 2 = Inr [7, 9098160460397411210]
   \<and> workload_generation refusing lcg_lib 8 4 = Inl (bad_alloc OperatorNew)"
proof -
  have "generate lcg_lib 0 2 7 = Inr [7, 9098160460397411210]"
    by code_simp
  then show ?thesis
    by (simp add: granting_generation refusing_generation)
qed

text \<open>
  C7, amended. For every item count, 0 included, generation fails exactly when the
  constructor of the vector of line 74 throws or \<^verbatim>\<open>std::random_device\<close> throws, and then
  with that exception; the item count has no part in it. When neither throws,
  generation returns a workload of \<open>access_count\<close> entries.
\<close>

theorem generation_fails_iff:
  "((\<exists>e. workload_generation E R item_count access_count = Inl e)
      = (vector_throws E access_count \<noteq> None \<or> isl (random_device E)))
   \<and> (\<forall>e. vector_throws E access_count = Some e
          \<longrightarrow> workload_generation E R item_count access_count = Inl e)
   \<and> (\<forall>e. vector_throws E access_count = None \<and> random_device E = Inl e
          \<longrightarrow> workload_generation E R item_count access_count = Inl e)
   \<and> (\<forall>seed. vector_throws E access_count = None \<and> random_device E = Inr seed
          \<longrightarrow> (\<exists>idxs. workload_generation E R item_count access_count = Inr idxs
                 \<and> length idxs = unat access_count))"
proof -
  have ok: "\<exists>idxs. workload_generation E R item_count access_count = Inr idxs
                 \<and> length idxs = unat access_count"
    if "vector_throws E access_count = None" and "random_device E = Inr seed" for seed
    using generate_Inr [of R item_count access_count seed] that
    by (auto simp: workload_generation_def)
  have v: "workload_generation E R item_count access_count = Inl e"
    if "vector_throws E access_count = Some e" for e
    using that by (simp add: workload_generation_def)
  have r: "workload_generation E R item_count access_count = Inl e"
    if "vector_throws E access_count = None" and "random_device E = Inl e" for e
    using that by (simp add: workload_generation_def)
  have iff: "(\<exists>e. workload_generation E R item_count access_count = Inl e)
      = (vector_throws E access_count \<noteq> None \<or> isl (random_device E))"
  proof (cases "vector_throws E access_count")
    case (Some e)
    with v show ?thesis by auto
  next
    case None
    show ?thesis
    proof (cases "random_device E")
      case (Inl e)
      with None r show ?thesis by auto
    next
      case (Inr seed)
      with None ok [of seed] show ?thesis by auto
    qed
  qed
  from iff v r ok show ?thesis by blast
qed

theorem generation_fails_iff_witness:
  "vector_throws (granting 7) 2 = None \<and> random_device (granting 7) = Inr 7
   \<and> workload_generation (granting 7) lcg_lib 0 2 = Inr [7, 9098160460397411210]
   \<and> length [7, 9098160460397411210 :: size_t] = unat (2 :: size_t)
   \<and> vector_throws refusing 4 = Some (bad_alloc OperatorNew)
   \<and> workload_generation refusing lcg_lib 8 4 = Inl (bad_alloc OperatorNew)"
proof -
  have a: "vector_throws (granting 7) 2 = None \<and> random_device (granting 7) = Inr 7"
    by (simp add: granting_def)
  have b: "vector_throws refusing 4 = Some (bad_alloc OperatorNew)"
    by (simp add: refusing_def)
  have e: "generate lcg_lib 0 2 7 = Inr [7, 9098160460397411210]"
    by code_simp
  from generation_fails_iff [of "granting 7" lcg_lib 0 2] a e
  have c: "workload_generation (granting 7) lcg_lib 0 2 = Inr [7, 9098160460397411210]"
    by (simp add: granting_generation)
  from generation_fails_iff [of refusing lcg_lib 8 4] b
  have d: "workload_generation refusing lcg_lib 8 4 = Inl (bad_alloc OperatorNew)"
    by blast
  from a b c d show ?thesis by simp
qed




section \<open>Timer\<close>

lemma elapsed_ms_sign: "(0 \<le> elapsed_ms (Timer_ctor name t0) t1) = (t0 \<le> t1)"
  by (simp add: elapsed_ms_def Timer_ctor_def)

lemma elapsed_ms_zero: "(elapsed_ms (Timer_ctor name t0) t1 = 0) = (t1 = t0)"
  by (simp add: elapsed_ms_def Timer_ctor_def)




section \<open>The raw case\<close>

lemma for_loop_invariant:
  assumes step: "\<And>i s s'. i < n \<Longrightarrow> P s \<Longrightarrow> body i s = Inr s' \<Longrightarrow> P s'"
    and "P s" and "for_loop i n body s = Inr t"
  shows "P t"
proof -
  from assms(3) have "loop_run n body i s t" by (rule for_loop_loop_run)
  then show ?thesis using \<open>P s\<close>
    by (induction rule: loop_run.induct) (auto intro: step)
qed

lemma raw_body_eq:
  "raw_body raw_mem item_count idxs =
     (\<lambda>i s. case subscript idxs i of Inl e \<Rightarrow> Inl e | Inr idx \<Rightarrow> raw_access raw_mem item_count idx s)"
  by (intro ext) (simp add: raw_body_def)

lemma byte_toggle: "b = 0 \<or> b = 1 \<Longrightarrow> 1 - b = 0 \<or> 1 - b = 1" for b :: uint8_t
  by auto

lemma raw_access_Inr:
  "idx < item_count \<Longrightarrow>
     raw_access raw_mem item_count idx s =
       Inr ((fst s)(raw_mem + unat idx := 1 - fst s (raw_mem + unat idx)),
            1 - fst s (raw_mem + unat idx) \<noteq> 0)"
  by (simp add: raw_access_def Let_def)

lemma raw_access_boolean:
  assumes "raw_access raw_mem item_count idx s = Inr s'"
    and "\<forall>j < unat item_count. fst s (raw_mem + j) = 0 \<or> fst s (raw_mem + j) = 1"
  shows "\<forall>j < unat item_count. fst s' (raw_mem + j) = 0 \<or> fst s' (raw_mem + j) = 1"
proof -
  from assms(1) have lt: "idx < item_count"
    by (auto simp: raw_access_def split: if_splits)
  then have u: "unat idx < unat item_count" by (simp add: word_less_nat_alt)
  from assms(1) have s': "fst s' = (fst s)(raw_mem + unat idx := 1 - fst s (raw_mem + unat idx))"
    by (simp add: raw_access_Inr [OF lt] split_pairs)
  from assms(2) u have "1 - fst s (raw_mem + unat idx) = 0 \<or> 1 - fst s (raw_mem + unat idx) = 1"
    by (intro byte_toggle) blast
  with assms(2) show ?thesis
    by (auto simp: s')
qed

lemma raw_body_boolean:
  assumes "raw_body raw_mem item_count idxs i s = Inr s'"
    and "\<forall>j < unat item_count. fst s (raw_mem + j) = 0 \<or> fst s (raw_mem + j) = 1"
  shows "\<forall>j < unat item_count. fst s' (raw_mem + j) = 0 \<or> fst s' (raw_mem + j) = 1"
proof -
  from assms(1) obtain idx where "raw_access raw_mem item_count idx s = Inr s'"
    by (auto simp: raw_body_def split: sum.splits)
  then show ?thesis using assms(2) by (rule raw_access_boolean)
qed

lemma allocate_bytes_zero:
  assumes "allocate 1 malloc m item_count = Inr (raw_mem, m0)"
  shows "\<forall>j < unat item_count. m0 (raw_mem + j) = 0"
proof -
  have "m0 = memset m raw_mem 0 (unat item_count * unat (1 :: size_t))"
    using assms by (rule allocate_Inr)
  then show ?thesis by (simp add: memset_inside)
qed

text \<open>
  C10. In the raw case the buffer comes from \<open>allocate\<close> at element size 1. The state after
  the first \<open>k\<close> iterations of the access loop, for any \<open>k\<close> up to the access count, is
  what the loop run up to \<open>k\<close> leaves, and the whole loop continues from it. In every such
  state every byte of the buffer is 0 or 1.
\<close>

theorem raw_bytes_boolean:
  assumes "allocate 1 malloc m item_count = Inr (raw_mem, m0)"
    and "k \<le> access_count"
    and "for_loop 0 k (raw_body raw_mem item_count idxs) (m0, sink) = Inr (m', sink')"
    and "j < unat item_count"
  shows "(m' (raw_mem + j) = 0 \<or> m' (raw_mem + j) = 1)
    \<and> for_loop 0 access_count (raw_body raw_mem item_count idxs) (m0, sink)
        = for_loop k access_count (raw_body raw_mem item_count idxs) (m', sink')"
proof -
  let ?P = "\<lambda>s :: memory \<times> bool. \<forall>j < unat item_count. fst s (raw_mem + j) = 0 \<or> fst s (raw_mem + j) = 1"
  have "?P (m0, sink)"
    using allocate_bytes_zero [OF assms(1)] by simp
  have "?P (m', sink')"
  proof (rule for_loop_invariant [where P = ?P and n = k])
    show "?P s'" if "?P s" and "raw_body raw_mem item_count idxs i s = Inr s'" for i s s'
      using that(2,1) by (rule raw_body_boolean)
    show "?P (m0, sink)" by fact
    show "for_loop 0 k (raw_body raw_mem item_count idxs) (m0, sink) = Inr (m', sink')" by fact
  qed
  with assms(4) have "m' (raw_mem + j) = 0 \<or> m' (raw_mem + j) = 1"
    by simp
  moreover have "for_loop 0 access_count (raw_body raw_mem item_count idxs) (m0, sink)
        = for_loop k access_count (raw_body raw_mem item_count idxs) (m', sink')"
    using for_loop_split [of 0 k access_count "raw_body raw_mem item_count idxs" "(m0, sink)"] assms(2,3)
    by simp
  ultimately show ?thesis by simp
qed

theorem raw_bytes_boolean_witness:
  "allocate 1 fixed_malloc stale 8 = Inr (64, memset stale 64 0 8)
   \<and> (3 :: size_t) \<le> 4
   \<and> (1 :: nat) < unat (8 :: size_t)
   \<and> (\<exists>m' sink'. for_loop 0 3 (raw_body 64 8 [0, 1, 0, 3]) (memset stale 64 0 8, False) = Inr (m', sink')
         \<and> map m' [64 ..< 72] = [0, 1, 0, 0, 0, 0, 0, 0]
         \<and> (m' (64 + 1) = 0 \<or> m' (64 + 1) = 1))"
proof -
  have a: "allocate 1 fixed_malloc stale 8 = Inr (64, memset stale 64 0 8)"
    by (simp add: allocate_def bytes_to_allocate_def SIZE_MAX_def fixed_malloc_def)
  have k: "(3 :: size_t) \<le> 4" by simp
  have j: "(1 :: nat) < unat (8 :: size_t)" by simp
  have "case for_loop 0 3 (raw_body 64 8 [0, 1, 0, 3]) (memset stale 64 0 8, False) of
          Inl e \<Rightarrow> False
        | Inr s \<Rightarrow> map (fst s) [64 ..< 72] = [0, 1, 0, 0, 0, 0, 0, 0]"
    by code_simp
  then obtain m' sink' where
    r: "for_loop 0 3 (raw_body 64 8 [0, 1, 0, 3]) (memset stale 64 0 8, False) = Inr (m', sink')"
    and v: "map m' [64 ..< 72] = [0, 1, 0, 0, 0, 0, 0, 0]"
    by (auto split: sum.splits)
  have c: "m' (64 + 1) = 0 \<or> m' (64 + 1) = 1"
    using raw_bytes_boolean [OF a k r j] by (rule conjunct1)
  have "\<exists>m' sink'. for_loop 0 3 (raw_body 64 8 [0, 1, 0, 3]) (memset stale 64 0 8, False) = Inr (m', sink')
         \<and> map m' [64 ..< 72] = [0, 1, 0, 0, 0, 0, 0, 0]
         \<and> (m' (64 + 1) = 0 \<or> m' (64 + 1) = 1)"
    using r v c by (intro exI conjI)
  with a k j show ?thesis
    by (intro conjI)
qed

lemma run_list_raw_parity:
  assumes "\<forall>idx \<in> set xs. idx < item_count"
    and "\<forall>j < unat item_count. fst s (raw_mem + j) = 0 \<or> fst s (raw_mem + j) = 1"
  shows "\<exists>t. run_list (raw_access raw_mem item_count) xs s = Inr t
    \<and> (\<forall>j < unat item_count.
          raw_flag (fst t) raw_mem j = (raw_flag (fst s) raw_mem j \<noteq> odd (count_list xs (of_nat j))))"
  using assms
proof (induction xs arbitrary: s)
  case Nil
  then show ?case by simp
next
  case (Cons x xs)
  then have lt: "x < item_count" by simp
  then have u: "unat x < unat item_count" by (simp add: word_less_nat_alt)
  define s1 where "s1 = ((fst s)(raw_mem + unat x := 1 - fst s (raw_mem + unat x)),
            1 - fst s (raw_mem + unat x) \<noteq> 0)"
  have a: "raw_access raw_mem item_count x s = Inr s1"
    using lt by (simp add: raw_access_Inr s1_def)
  then have inv1: "\<forall>j < unat item_count. fst s1 (raw_mem + j) = 0 \<or> fst s1 (raw_mem + j) = 1"
    using Cons.prems(2) by (rule raw_access_boolean)
  from Cons.IH [of s1] Cons.prems(1) inv1
  obtain t where t: "run_list (raw_access raw_mem item_count) xs s1 = Inr t"
    and par: "\<forall>j < unat item_count.
          raw_flag (fst t) raw_mem j = (raw_flag (fst s1) raw_mem j \<noteq> odd (count_list xs (of_nat j)))"
    by auto
  have flip: "raw_flag (fst s1) raw_mem j = (raw_flag (fst s) raw_mem j \<noteq> (x = of_nat j))"
    if j: "j < unat item_count" for j
  proof (cases "unat x = j")
    case True
    then have x: "x = of_nat j" by auto
    from Cons.prems(2) j have "fst s (raw_mem + j) = 0 \<or> fst s (raw_mem + j) = 1" by simp
    then show ?thesis using True x by (auto simp: raw_flag_def s1_def)
  next
    case False
    have "unat item_count < 2 ^ LENGTH(64)" by (rule unsigned_less)
    with j have "j < 2 ^ LENGTH(64)" by (rule less_trans)
    then have "unat (of_nat j :: size_t) = j" by (simp add: unat_of_nat)
    with False have "x \<noteq> of_nat j" by auto
    with False show ?thesis by (simp add: raw_flag_def s1_def)
  qed
  have "raw_flag (fst t) raw_mem j = (raw_flag (fst s) raw_mem j \<noteq> odd (count_list (x # xs) (of_nat j)))"
    if j: "j < unat item_count" for j
    using par flip [OF j] j by auto
  with a t show ?case by simp
qed

section \<open>The packed boolean store\<close>

lemma getFlag_bit:
  "getFlag v i = bit (blocks v ! blockIndex v i) (bitOffset v i)"
  for v :: "'a::len word vector_bool"
  by (simp add: getFlag_def and_exp_eq_0_iff_not_bit)

lemma bitOffset_less: "bitOffset v i < LENGTH('a)" for v :: "'a::len word vector_bool"
  by (simp add: bitOffset_def blockWidth_def)

lemma setFlag_blocks:
  "blocks (setFlag v i x) =
     (blocks v)[blockIndex v i :=
        (if x then blocks v ! blockIndex v i OR push_bit (bitOffset v i) 1
         else blocks v ! blockIndex v i AND NOT (push_bit (bitOffset v i) 1))]"
  by (simp add: setFlag_def Let_def)

lemma setFlag_size [simp]: "vb_size (setFlag v i x) = vb_size v"
  by (simp add: setFlag_def Let_def)

lemma setFlag_length [simp]: "length (blocks (setFlag v i x)) = length (blocks v)"
  by (simp add: setFlag_blocks)

lemma setFlag_index [simp]:
  "blockIndex (setFlag v i x) j = blockIndex v j" "bitOffset (setFlag v i x) j = bitOffset v j"
  by (simp_all add: blockIndex_def bitOffset_def blockWidth_def)

lemma setFlag_wf: "wf_vector_bool v \<Longrightarrow> wf_vector_bool (setFlag v i x)"
  by (simp add: wf_vector_bool_def nblocks_def blockWidth_def)

lemma index_inj:
  "blockIndex v i = blockIndex v j \<Longrightarrow> bitOffset v i = bitOffset v j \<Longrightarrow> i = j"
  for v :: "'a::len word vector_bool"
  unfolding blockIndex_def bitOffset_def
  by (metis div_mult_mod_eq)

lemma block_in_range:
  assumes "wf_vector_bool v" and "i < vb_size v"
  shows "blockIndex v i < length (blocks v)"
proof -
  have w: "0 < blockWidth v" by (simp add: blockWidth_def)
  have "i div blockWidth v < (vb_size v + blockWidth v - 1) div blockWidth v"
  proof -
    have "i div blockWidth v * blockWidth v \<le> i" by simp
    also have "i < vb_size v" by fact
    finally have "i div blockWidth v * blockWidth v + blockWidth v \<le> vb_size v + blockWidth v - 1"
      using w by simp
    then have "(i div blockWidth v + 1) * blockWidth v \<le> vb_size v + blockWidth v - 1"
      by (simp add: algebra_simps)
    then have "i div blockWidth v + 1 \<le> (vb_size v + blockWidth v - 1) div blockWidth v"
      using w by (simp add: less_eq_div_iff_mult_less_eq)
    then show ?thesis by simp
  qed
  with assms(1) show ?thesis
    by (simp add: wf_vector_bool_def nblocks_def blockIndex_def)
qed

lemma getFlag_setFlag_same:
  assumes "blockIndex v i < length (blocks v)"
  shows "getFlag (setFlag v i x) i = x"
  using assms bitOffset_less [of v i]
  by (simp add: getFlag_bit setFlag_blocks bit_simps)

lemma getFlag_setFlag_other:
  assumes "i \<noteq> j"
  shows "getFlag (setFlag v i x) j = getFlag v j"
proof (cases "blockIndex v i = blockIndex v j")
  case False
  then show ?thesis
    by (simp add: getFlag_bit setFlag_blocks)
next
  case True
  with assms have off: "bitOffset v i \<noteq> bitOffset v j"
    using index_inj by blast
  show ?thesis
  proof (cases "blockIndex v i < length (blocks v)")
    case False
    then show ?thesis by (simp add: getFlag_bit setFlag_blocks list_update_beyond not_less)
  next
    case inside: True
    with True off bitOffset_less [of v j] show ?thesis
      by (auto simp add: getFlag_bit setFlag_blocks bit_simps)
  qed
qed


lemma vector_bool_init_wf: "wf_vector_bool (vector_bool_init n :: 'a::len word vector_bool)"
  by (simp add: vector_bool_init_def wf_vector_bool_def nblocks_def blockWidth_def Let_def)

lemma vector_bool_init_size [simp]: "vb_size (vector_bool_init n) = unat n"
  by (simp add: vector_bool_init_def Let_def)

lemma vector_bool_init_false:
  assumes "j < unat n"
  shows "\<not> getFlag (vector_bool_init n :: 'a::len word vector_bool) j"
proof -
  let ?v = "vector_bool_init n :: 'a word vector_bool"
  have "blockIndex ?v j < length (blocks ?v)"
    using assms by (intro block_in_range) (simp_all add: vector_bool_init_wf)
  moreover have "blocks ?v = replicate (length (blocks ?v)) 0"
    by (simp add: vector_bool_init_def Let_def)
  ultimately have "blocks ?v ! blockIndex ?v j = 0"
    by (metis nth_replicate)
  then show ?thesis by (simp add: getFlag_bit)
qed

text \<open>
  C5. The block width is the width of the word type of the blocks, any width from 1 on.
  In a store with as many blocks as its flags need, for a valid index \<open>i\<close>: flag \<open>i\<close> lives
  in block \<open>i div w\<close> at offset \<open>i mod w\<close>; reading it after writing true gives true, after
  writing false gives false; a write to \<open>i\<close> leaves every other valid flag \<open>j\<close> as it was
  and changes no block but the one of \<open>i\<close>; the store stays well formed and keeps its size.
\<close>

theorem packed_roundtrip:
  fixes v :: "'a::len word vector_bool"
  assumes "wf_vector_bool v" and "i < vb_size v" and "j < vb_size v" and "j \<noteq> i"
  shows "getFlag (setFlag v i True) i = True
    \<and> getFlag (setFlag v i False) i = False
    \<and> getFlag (setFlag v i x) j = getFlag v j
    \<and> blockWidth v = LENGTH('a) \<and> 1 \<le> blockWidth v
    \<and> blockIndex v i = i div LENGTH('a) \<and> bitOffset v i = i mod LENGTH('a)
    \<and> (\<forall>k. k \<noteq> blockIndex v i \<longrightarrow> blocks (setFlag v i x) ! k = blocks v ! k)
    \<and> wf_vector_bool (setFlag v i x) \<and> vb_size (setFlag v i x) = vb_size v"
proof -
  have inside: "blockIndex v i < length (blocks v)"
    using assms(1,2) by (rule block_in_range)
  have "getFlag (setFlag v i True) i = True" "getFlag (setFlag v i False) i = False"
    using inside by (simp_all add: getFlag_setFlag_same)
  moreover have "getFlag (setFlag v i x) j = getFlag v j"
    using assms(4) by (simp add: getFlag_setFlag_other)
  moreover have "\<forall>k. k \<noteq> blockIndex v i \<longrightarrow> blocks (setFlag v i x) ! k = blocks v ! k"
    by (simp add: setFlag_blocks)
  moreover have "wf_vector_bool (setFlag v i x)"
    using assms(1) by (rule setFlag_wf)
  ultimately show ?thesis
    by (simp add: blockIndex_def bitOffset_def blockWidth_def Suc_leI)
qed

theorem packed_roundtrip_witness:
  "wf_vector_bool (vector_bool_init 8 :: 3 word vector_bool)
   \<and> (4 :: nat) < vb_size (vector_bool_init 8 :: 3 word vector_bool)
   \<and> (5 :: nat) < vb_size (vector_bool_init 8 :: 3 word vector_bool)
   \<and> (5 :: nat) \<noteq> 4
   \<and> getFlag (setFlag (vector_bool_init 8 :: 3 word vector_bool) 4 True) 4 = True
   \<and> getFlag (setFlag (vector_bool_init 8 :: 3 word vector_bool) 4 False) 4 = False
   \<and> getFlag (setFlag (vector_bool_init 8 :: 3 word vector_bool) 4 True) 5
        = getFlag (vector_bool_init 8 :: 3 word vector_bool) 5
   \<and> blockIndex (vector_bool_init 8 :: 3 word vector_bool) 4 = 1
   \<and> bitOffset (vector_bool_init 8 :: 3 word vector_bool) 4 = 1
   \<and> blocks (setFlag (vector_bool_init 8 :: 3 word vector_bool) 4 True) = [0, 2, 0]"
proof -
  let ?v = "vector_bool_init 8 :: 3 word vector_bool"
  have h1: "wf_vector_bool ?v" by code_simp
  have h2: "(4 :: nat) < vb_size ?v" by code_simp
  have h3: "(5 :: nat) < vb_size ?v" by code_simp
  have h4: "(5 :: nat) \<noteq> 4" by simp
  have e: "blocks (setFlag ?v 4 True) = [0, 2, 0]" by code_simp
  from packed_roundtrip [OF h1 h2 h3 h4, of True] h1 h2 h3 h4 e
  show ?thesis by simp
qed

section \<open>The two cases on one workload\<close>

lemma packed_body_eq:
  "packed_body idxs =
     (\<lambda>i s. case subscript idxs i of Inl e \<Rightarrow> Inl e | Inr idx \<Rightarrow> packed_access idx s)"
  by (intro ext) (simp add: packed_body_def)

lemma of_nat_index: "j < unat n \<Longrightarrow> (x = of_nat j) = (unat x = j)" for x n :: size_t
proof -
  assume j: "j < unat n"
  have "unat n < 2 ^ LENGTH(64)" by (rule unsigned_less)
  with j have "j < 2 ^ LENGTH(64)" by (rule less_trans)
  then have "unat (of_nat j :: size_t) = j" by (simp add: unat_of_nat)
  then show ?thesis by auto
qed

lemma run_list_packed_parity:
  fixes s :: "'a::len word vector_bool \<times> bool"
  assumes "\<forall>idx \<in> set xs. idx < item_count"
    and "vb_size (fst s) = unat item_count"
    and "wf_vector_bool (fst s)"
  shows "\<exists>t. run_list packed_access xs s = Inr t
    \<and> (\<forall>j < unat item_count.
          getFlag (fst t) j = (getFlag (fst s) j \<noteq> odd (count_list xs (of_nat j))))"
  using assms
proof (induction xs arbitrary: s)
  case Nil
  then show ?case by simp
next
  case (Cons x xs)
  then have "x < item_count" by simp
  then have u: "unat x < vb_size (fst s)"
    using Cons.prems(2) by (simp add: word_less_nat_alt)
  define v1 where "v1 = setFlag (fst s) (unat x) (\<not> getFlag (fst s) (unat x))"
  define s1 where "s1 = (v1, getFlag v1 (unat x))"
  have a: "packed_access x s = Inr s1"
    using u by (simp add: packed_access_def Let_def s1_def v1_def)
  have size1: "vb_size (fst s1) = unat item_count"
    using Cons.prems(2) by (simp add: s1_def v1_def)
  have wf1: "wf_vector_bool (fst s1)"
    using Cons.prems(3) by (simp add: s1_def v1_def setFlag_wf)
  from Cons.IH [of s1] Cons.prems(1) size1 wf1
  obtain t where t: "run_list packed_access xs s1 = Inr t"
    and par: "\<forall>j < unat item_count.
          getFlag (fst t) j = (getFlag (fst s1) j \<noteq> odd (count_list xs (of_nat j)))"
    by auto
  have inside: "blockIndex (fst s) (unat x) < length (blocks (fst s))"
    using Cons.prems(3) u by (rule block_in_range)
  have flip: "getFlag (fst s1) j = (getFlag (fst s) j \<noteq> (x = of_nat j))"
    if j: "j < unat item_count" for j
  proof (cases "unat x = j")
    case True
    then show ?thesis
      using inside by (simp add: of_nat_index [OF j] s1_def v1_def getFlag_setFlag_same)
  next
    case False
    then show ?thesis
      by (simp add: of_nat_index [OF j] s1_def v1_def getFlag_setFlag_other)
  qed
  have "getFlag (fst t) j = (getFlag (fst s) j \<noteq> odd (count_list (x # xs) (of_nat j)))"
    if j: "j < unat item_count" for j
    using par flip [OF j] j by auto
  with a t show ?case by simp
qed

lemma raw_case_parity:
  assumes "allocate 1 malloc m item_count = Inr (raw_mem, m0)"
    and "length idxs = unat access_count"
    and "\<forall>idx \<in> set idxs. idx < item_count"
  shows "\<exists>m' sink'. raw_case malloc m item_count access_count idxs sink = Inr (raw_mem, m', sink')
    \<and> (\<forall>j < unat item_count. raw_flag m' raw_mem j = odd (count_list idxs (of_nat j)))"
proof -
  have zero: "\<forall>j < unat item_count. m0 (raw_mem + j) = 0"
    using assms(1) by (rule allocate_bytes_zero)
  have loop: "for_loop 0 access_count (raw_body raw_mem item_count idxs) (m0, sink)
      = run_list (raw_access raw_mem item_count) idxs (m0, sink)"
    using for_loop_subscript [OF assms(2), of 0 "raw_access raw_mem item_count" "(m0, sink)"]
    by (simp add: raw_body_eq)
  from run_list_raw_parity [of idxs item_count "(m0, sink)" raw_mem] assms(3) zero
  obtain t where t: "run_list (raw_access raw_mem item_count) idxs (m0, sink) = Inr t"
    and par: "\<forall>j < unat item_count.
          raw_flag (fst t) raw_mem j = (raw_flag m0 raw_mem j \<noteq> odd (count_list idxs (of_nat j)))"
    by auto
  have "raw_case malloc m item_count access_count idxs sink = Inr (raw_mem, fst t, snd t)"
    by (simp add: raw_case_def assms(1) loop t split: prod.splits)
  moreover have "\<forall>j < unat item_count. raw_flag (fst t) raw_mem j = odd (count_list idxs (of_nat j))"
    using par zero by (simp add: raw_flag_def)
  ultimately show ?thesis by blast
qed

lemma vector_bool_ctor_Inr:
  "vector_bool_ctor malloc m n = Inr v \<Longrightarrow> v = vector_bool_init n"
  by (auto simp: vector_bool_ctor_def Let_def split: sum.splits)

lemma packed_case_parity:
  fixes v0 :: "'a::len word vector_bool"
  assumes "vector_bool_ctor malloc m item_count = Inr v0"
    and "length idxs = unat access_count"
    and "\<forall>idx \<in> set idxs. idx < item_count"
  shows "\<exists>(v' :: 'a word vector_bool) sink'.
      packed_case malloc m item_count access_count idxs sink = Inr (v', sink')
    \<and> (\<forall>j < unat item_count. getFlag v' j = odd (count_list idxs (of_nat j)))"
proof -
  have v0: "v0 = vector_bool_init item_count"
    using assms(1) by (rule vector_bool_ctor_Inr)
  have loop: "for_loop 0 access_count (packed_body idxs) (v0, sink)
      = run_list packed_access idxs (v0, sink)"
    using for_loop_subscript [OF assms(2), of 0 packed_access "(v0, sink)"]
    by (simp add: packed_body_eq)
  from run_list_packed_parity [of idxs item_count "(v0, sink)"] assms(3)
  obtain t where t: "run_list packed_access idxs (v0, sink) = Inr t"
    and par: "\<forall>j < unat item_count.
          getFlag (fst t) j = (getFlag v0 j \<noteq> odd (count_list idxs (of_nat j)))"
    by (auto simp: v0 vector_bool_init_wf)
  have "packed_case malloc m item_count access_count idxs sink = Inr (fst t, snd t)"
    by (simp add: packed_case_def assms(1) loop t)
  moreover have "\<forall>j < unat item_count. getFlag (fst t) j = odd (count_list idxs (of_nat j))"
    using par by (simp add: v0 vector_bool_init_false)
  ultimately show ?thesis by blast
qed


text \<open>
  C9. For a workload whose entries are all below the item count (and which has
  \<open>access_count\<close> entries, as the generated one has), once the two stores are allocated
  both access loops run to their end, and for every position \<open>p\<close> below the item count
  the raw store and the packed store hold the same boolean, which is true exactly when
  \<open>p\<close> occurs an odd number of times in the workload.
\<close>

theorem cases_agree_parity:
  fixes v0 :: "'a::len word vector_bool"
  assumes "\<forall>idx \<in> set idxs. idx < item_count"
    and "length idxs = unat access_count"
    and "allocate 1 malloc m item_count = Inr (raw_mem, m0)"
    and "vector_bool_ctor malloc' m1 item_count = Inr v0"
  shows "\<exists>m' sink1 (v' :: 'a word vector_bool) sink2.
      raw_case malloc m item_count access_count idxs sink = Inr (raw_mem, m', sink1)
    \<and> packed_case malloc' m1 item_count access_count idxs sink' = Inr (v', sink2)
    \<and> (\<forall>p < unat item_count.
          raw_flag m' raw_mem p = getFlag v' p
          \<and> getFlag v' p = odd (count_list idxs (of_nat p)))"
proof -
  from raw_case_parity [OF assms(3,2,1), of sink]
  obtain m' sink1 where r: "raw_case malloc m item_count access_count idxs sink = Inr (raw_mem, m', sink1)"
    and rp: "\<forall>j < unat item_count. raw_flag m' raw_mem j = odd (count_list idxs (of_nat j))"
    by blast
  from packed_case_parity [OF assms(4,2,1), of sink']
  obtain v' :: "'a word vector_bool" and sink2
    where p: "packed_case malloc' m1 item_count access_count idxs sink' = Inr (v', sink2)"
    and pp: "\<forall>j < unat item_count. getFlag v' j = odd (count_list idxs (of_nat j))"
    by blast
  from rp pp have "\<forall>p < unat item_count.
          raw_flag m' raw_mem p = getFlag v' p
          \<and> getFlag v' p = odd (count_list idxs (of_nat p))"
    by simp
  with r p show ?thesis by blast
qed

lemma fixed_allocate_8: "allocate 1 fixed_malloc stale 8 = Inr (64, memset stale 64 0 8)"
  by (simp add: allocate_def bytes_to_allocate_def SIZE_MAX_def fixed_malloc_def)

lemma fixed_ctor_8:
  "vector_bool_ctor fixed_malloc stale 8 = Inr (vector_bool_init 8 :: 64 word vector_bool)"
  by (simp add: vector_bool_ctor_def vector_bool_init_def nblocks_def block_bytes_def
      blockWidth_def allocate_def bytes_to_allocate_def SIZE_MAX_def fixed_malloc_def Let_def)

theorem cases_agree_parity_witness:
  "list_all (\<lambda>idx. idx < 8) [2, 5, 2, 2, 7 :: size_t]
   \<and> length [2, 5, 2, 2, 7 :: size_t] = unat (5 :: size_t)
   \<and> allocate 1 fixed_malloc stale 8 = Inr (64, memset stale 64 0 8)
   \<and> vector_bool_ctor fixed_malloc stale 8 = Inr (vector_bool_init 8 :: 64 word vector_bool)
   \<and> (\<exists>m' sink1 (v' :: 64 word vector_bool) sink2.
        raw_case fixed_malloc stale 8 5 [2, 5, 2, 2, 7] False = Inr (64, m', sink1)
      \<and> packed_case fixed_malloc stale 8 5 [2, 5, 2, 2, 7] False = Inr (v', sink2)
      \<and> (\<forall>p < unat (8 :: size_t).
            raw_flag m' 64 p = getFlag v' p
            \<and> getFlag v' p = odd (count_list [2, 5, 2, 2, 7 :: size_t] (of_nat p))))
   \<and> (case raw_case fixed_malloc stale 8 5 [2, 5, 2, 2, 7] False of
         Inl e \<Rightarrow> False
       | Inr (p, m', s) \<Rightarrow>
           map (raw_flag m' p) [0 ..< 8] = [False, False, True, False, False, True, False, True])
   \<and> (case packed_case fixed_malloc stale 8 5 [2, 5, 2, 2, 7] False of
         Inl e \<Rightarrow> False
       | Inr (v' :: 64 word vector_bool, s) \<Rightarrow>
           map (getFlag v') [0 ..< 8] = [False, False, True, False, False, True, False, True])"
proof -
  have h1: "\<forall>idx \<in> set [2, 5, 2, 2, 7 :: size_t]. idx < 8" by simp
  have h2: "length [2, 5, 2, 2, 7 :: size_t] = unat (5 :: size_t)" by simp
  have e1: "case raw_case fixed_malloc stale 8 5 [2, 5, 2, 2, 7] False of
         Inl e \<Rightarrow> False
       | Inr (p, m', s) \<Rightarrow>
           map (raw_flag m' p) [0 ..< 8] = [False, False, True, False, False, True, False, True]"
    by code_simp
  have e2: "case packed_case fixed_malloc stale 8 5 [2, 5, 2, 2, 7] False of
         Inl e \<Rightarrow> False
       | Inr (v' :: 64 word vector_bool, s) \<Rightarrow>
           map (getFlag v') [0 ..< 8] = [False, False, True, False, False, True, False, True]"
    by code_simp
  have h1': "list_all (\<lambda>idx. idx < 8) [2, 5, 2, 2, 7 :: size_t]" by simp
  from cases_agree_parity [OF h1 h2 fixed_allocate_8 fixed_ctor_8, of False False]
    h1' h2 fixed_allocate_8 fixed_ctor_8 e1 e2
  show ?thesis by (intro conjI)
qed

text \<open>
  C4. Item count 8, access count 4, workload 0, 1, 0, 3. Once the two stores are
  allocated, both loops run to their end; in the raw store and in the packed store, of
  any block width, positions 1 and 3 are true and positions 0, 2, 4, 5, 6 and 7 are
  false, so the two final states are the same.
\<close>

theorem scenario_final_state:
  fixes v0 :: "'a::len word vector_bool"
  assumes "allocate 1 malloc m 8 = Inr (raw_mem, m0)"
    and "vector_bool_ctor malloc' m1 8 = Inr v0"
  shows "\<exists>m' sink1 (v' :: 'a word vector_bool) sink2.
      raw_case malloc m 8 4 [0, 1, 0, 3] sink = Inr (raw_mem, m', sink1)
    \<and> packed_case malloc' m1 8 4 [0, 1, 0, 3] sink' = Inr (v', sink2)
    \<and> map (raw_flag m' raw_mem) [0, 1, 2, 3, 4, 5, 6, 7]
         = [False, True, False, True, False, False, False, False]
    \<and> map (getFlag v') [0, 1, 2, 3, 4, 5, 6, 7]
         = [False, True, False, True, False, False, False, False]
    \<and> map (raw_flag m' raw_mem) [0, 1, 2, 3, 4, 5, 6, 7] = map (getFlag v') [0, 1, 2, 3, 4, 5, 6, 7]"
proof -
  have h1: "\<forall>idx \<in> set [0, 1, 0, 3 :: size_t]. idx < 8" by simp
  have h2: "length [0, 1, 0, 3 :: size_t] = unat (4 :: size_t)" by simp
  from raw_case_parity [OF assms(1) h2 h1, of sink]
  obtain m' sink1 where r: "raw_case malloc m 8 4 [0, 1, 0, 3] sink = Inr (raw_mem, m', sink1)"
    and rp: "\<forall>j < unat (8 :: size_t). raw_flag m' raw_mem j = odd (count_list [0, 1, 0, 3 :: size_t] (of_nat j))"
    by blast
  from packed_case_parity [OF assms(2) h2 h1, of sink']
  obtain v' :: "'a word vector_bool" and sink2
    where p: "packed_case malloc' m1 8 4 [0, 1, 0, 3] sink' = Inr (v', sink2)"
    and pp: "\<forall>j < unat (8 :: size_t). getFlag v' j = odd (count_list [0, 1, 0, 3 :: size_t] (of_nat j))"
    by blast
  have rv: "map (raw_flag m' raw_mem) [0, 1, 2, 3, 4, 5, 6, 7]
         = [False, True, False, True, False, False, False, False]"
    using rp by simp
  have pv: "map (getFlag v') [0, 1, 2, 3, 4, 5, 6, 7]
         = [False, True, False, True, False, False, False, False]"
    using pp by simp
  from r p rv pv show ?thesis by simp
qed

theorem scenario_final_state_witness:
  "allocate 1 fixed_malloc stale 8 = Inr (64, memset stale 64 0 8)
   \<and> vector_bool_ctor fixed_malloc stale 8 = Inr (vector_bool_init 8 :: 64 word vector_bool)
   \<and> (\<exists>m' sink1 (v' :: 64 word vector_bool) sink2.
        raw_case fixed_malloc stale 8 4 [0, 1, 0, 3] False = Inr (64, m', sink1)
      \<and> packed_case fixed_malloc stale 8 4 [0, 1, 0, 3] False = Inr (v', sink2)
      \<and> map (raw_flag m' 64) [0, 1, 2, 3, 4, 5, 6, 7]
           = [False, True, False, True, False, False, False, False]
      \<and> map (getFlag v') [0, 1, 2, 3, 4, 5, 6, 7]
           = [False, True, False, True, False, False, False, False]
      \<and> map (raw_flag m' 64) [0, 1, 2, 3, 4, 5, 6, 7] = map (getFlag v') [0, 1, 2, 3, 4, 5, 6, 7])
   \<and> (case raw_case fixed_malloc stale 8 4 [0, 1, 0, 3] False of
         Inl e \<Rightarrow> False
       | Inr (p, m', s) \<Rightarrow> map m' [62 ..< 74] = [170, 170, 0, 1, 0, 1, 0, 0, 0, 0, 170, 170])
   \<and> (case packed_case fixed_malloc stale 8 4 [0, 1, 0, 3] False of
         Inl e \<Rightarrow> False
       | Inr (v' :: 64 word vector_bool, s) \<Rightarrow> blocks v' = [10] \<and> vb_size v' = 8)"
proof -
  have e1: "case raw_case fixed_malloc stale 8 4 [0, 1, 0, 3] False of
         Inl e \<Rightarrow> False
       | Inr (p, m', s) \<Rightarrow> map m' [62 ..< 74] = [170, 170, 0, 1, 0, 1, 0, 0, 0, 0, 170, 170]"
    by code_simp
  have e2: "case packed_case fixed_malloc stale 8 4 [0, 1, 0, 3] False of
         Inl e \<Rightarrow> False
       | Inr (v' :: 64 word vector_bool, s) \<Rightarrow> blocks v' = [10] \<and> vb_size v' = 8"
    by code_simp
  from scenario_final_state [OF fixed_allocate_8 fixed_ctor_8, of False False]
    fixed_allocate_8 fixed_ctor_8 e1 e2
  show ?thesis by (intro conjI)
qed

section \<open>The program as a whole\<close>

lemma allocate_memory_independent:
  "allocate sizeof_T malloc m n = Inr (p, m1) \<Longrightarrow> \<exists>m2. allocate sizeof_T malloc m' n = Inr (p, m2)"
  by (auto simp: allocate_def split: if_splits option.splits)

lemma vector_bool_ctor_memory_independent:
  "vector_bool_ctor malloc m n = Inr v \<Longrightarrow> vector_bool_ctor malloc m' n = Inr v"
  by (auto simp: vector_bool_ctor_def Let_def split: sum.splits dest: allocate_memory_independent [where m' = m'])

text \<open>
  The whole program: with a distribution that keeps the standard's promise, the vector
  constructed, the seed read and both allocations granted, \<^verbatim>\<open>main\<close> runs to its end, and
  the packed store it leaves holds at every position the parity of that position's
  occurrences in the generated workload.
\<close>

lemma main_prog_completes:
  assumes "distrib_in_range R"
    and "vector_throws E ACCESS_COUNT = None" and "random_device E = Inr seed"
    and "allocate 1 malloc m ITEM_COUNT = Inr (raw_mem, m0)"
    and "vector_bool_ctor malloc m ITEM_COUNT = Inr (v0 :: 64 word vector_bool)"
  shows "\<exists>idxs v sink. workload_generation E R ITEM_COUNT ACCESS_COUNT = Inr idxs
     \<and> main_prog E R malloc m = Inr (v, sink)
     \<and> (\<forall>p < unat ITEM_COUNT. getFlag v p = odd (count_list idxs (of_nat p)))"
proof -
  have "1 \<le> ITEM_COUNT" by (simp add: ITEM_COUNT_def)
  with generate_Inr [of R ITEM_COUNT ACCESS_COUNT seed] assms(1)
  obtain idxs where "generate R ITEM_COUNT ACCESS_COUNT seed = Inr idxs"
    and len: "length idxs = unat ACCESS_COUNT"
    and "\<forall>j < length idxs. idxs ! j < ITEM_COUNT"
    by blast
  then have g: "workload_generation E R ITEM_COUNT ACCESS_COUNT = Inr idxs"
    and range: "\<forall>idx \<in> set idxs. idx < ITEM_COUNT"
    using assms(2,3) by (simp_all add: workload_generation_def all_set_conv_all_nth)
  from raw_case_parity [OF assms(4) len range, of False]
  obtain m' sink1 where r: "raw_case malloc m ITEM_COUNT ACCESS_COUNT idxs False = Inr (raw_mem, m', sink1)"
    by blast
  have "vector_bool_ctor malloc m' ITEM_COUNT = Inr v0"
    using assms(5) by (rule vector_bool_ctor_memory_independent)
  from packed_case_parity [OF this len range, of sink1]
  obtain v :: "64 word vector_bool" and sink2
    where p: "packed_case malloc m' ITEM_COUNT ACCESS_COUNT idxs sink1 = Inr (v, sink2)"
    and pp: "\<forall>j < unat ITEM_COUNT. getFlag v j = odd (count_list idxs (of_nat j))"
    by blast
  have "main_prog E R malloc m = Inr (v, sink2)"
    by (simp add: main_prog_def g r p)
  with g pp show ?thesis by blast
qed

end
